theory Spec2Isabelle
  imports Complex_Main "HOL-Library.Multiset"
begin

section \<open>Calendar dates as the program sees them\<close>

text \<open>
  The program handles JavaScript \<open>Date\<close> objects in local time. A date is modelled by
  the local calendar fields its getters return (\<open>getFullYear\<close>, \<open>getMonth\<close> counted
  from 0, \<open>getDate\<close>) and by the milliseconds elapsed since local midnight. Its time
  value, which is what \<open><=\<close> and \<open>-\<close> on two dates compare and subtract, is
  \<open>valueOf\<close>. Local time is taken without daylight-saving transitions (every local day
  has 86400000 ms), and the limit of the time-value range is not modelled.
\<close>

record jsdate =
  getFullYear :: int
  getMonth :: nat
  getDate :: nat
  msOfDay :: nat

definition msPerDay :: int where
  "msPerDay = 1000 * 60 * 60 * 24"

definition isLeap :: "int \<Rightarrow> bool" where
  "isLeap y = ((y mod 4 = 0 \<and> y mod 100 \<noteq> 0) \<or> y mod 400 = 0)"

definition daysInMonth :: "int \<Rightarrow> nat \<Rightarrow> nat" where
  "daysInMonth y m =
     (if m = 1 then (if isLeap y then 29 else 28)
      else if m = 3 \<or> m = 5 \<or> m = 8 \<or> m = 10 then 30
      else 31)"

text \<open>Day number of the first of January of year \<open>y\<close>, counted from 1970 (ECMAScript's DayFromYear).\<close>

definition dayFromYear :: "int \<Rightarrow> int" where
  "dayFromYear y =
     365 * (y - 1970) + (y - 1969) div 4 - (y - 1901) div 100 + (y - 1601) div 400"

definition daysBeforeMonth :: "int \<Rightarrow> nat \<Rightarrow> nat" where
  "daysBeforeMonth y m = sum_list (map (daysInMonth y) [0..<m])"

definition dayNumber :: "jsdate \<Rightarrow> int" where
  "dayNumber d =
     dayFromYear (getFullYear d) + int (daysBeforeMonth (getFullYear d) (getMonth d))
       + int (getDate d) - 1"

definition valueOf :: "jsdate \<Rightarrow> int" where
  "valueOf d = dayNumber d * msPerDay + int (msOfDay d)"

definition validDate :: "jsdate \<Rightarrow> bool" where
  "validDate d \<longleftrightarrow>
     getMonth d < 12 \<and> 1 \<le> getDate d \<and> getDate d \<le> daysInMonth (getFullYear d) (getMonth d)
     \<and> int (msOfDay d) < msPerDay"

text \<open>
  \<open>rollDay y m d\<close> is the calendar date of "day \<open>d\<close> of month \<open>m\<close> of year \<open>y\<close>" under the
  native overflow of \<open>Date\<close>: a day past the end of the month runs into the following
  months, day 0 is the last day of the previous month.
\<close>

function rollDay :: "int \<Rightarrow> nat \<Rightarrow> nat \<Rightarrow> jsdate" where
  "rollDay y m d =
     (if d = 0 then
        (if m = 0 then \<lparr>getFullYear = y - 1, getMonth = 11, getDate = 31, msOfDay = 0\<rparr>
         else \<lparr>getFullYear = y, getMonth = m - 1, getDate = daysInMonth y (m - 1), msOfDay = 0\<rparr>)
      else if daysInMonth y m < d then
        (if m = 11 then rollDay (y + 1) 0 (d - daysInMonth y m)
         else rollDay y (m + 1) (d - daysInMonth y m))
      else \<lparr>getFullYear = y, getMonth = m, getDate = d, msOfDay = 0\<rparr>)"
  by pat_completeness auto
termination
  by (relation "measure (\<lambda>(y, m, d). d)") (auto simp: daysInMonth_def)

declare rollDay.simps [simp del]

text \<open>ECMAScript's MakeDay: months past December carry into the year, then the day rolls.\<close>

definition makeDay :: "int \<Rightarrow> nat \<Rightarrow> nat \<Rightarrow> jsdate" where
  "makeDay y m d = rollDay (y + int (m div 12)) (m mod 12) d"

text \<open>
  \<open>new Date(year, monthIndex, day)\<close>: local midnight of that day. The constructor reads a
  year from 0 to 99 as 1900 + year.
\<close>

definition fullYearOf :: "int \<Rightarrow> int" where
  "fullYearOf y = (if 0 \<le> y \<and> y \<le> 99 then 1900 + y else y)"

definition newDate :: "int \<Rightarrow> nat \<Rightarrow> nat \<Rightarrow> jsdate" where
  "newDate y m d = makeDay (fullYearOf y) m d"

text \<open>\<open>d.setMonth(m)\<close> keeps the day of the month and the time of day; \<open>d.setHours(0, 0, 0, 0)\<close>.\<close>

definition setMonth :: "jsdate \<Rightarrow> nat \<Rightarrow> jsdate" where
  "setMonth d m = (makeDay (getFullYear d) m (getDate d))\<lparr>msOfDay := msOfDay d\<rparr>"

definition setHours0 :: "jsdate \<Rightarrow> jsdate" where
  "setHours0 d = d\<lparr>msOfDay := 0\<rparr>"

section \<open>The cycle catalog and its constants\<close>

record cycle =
  cutDay :: nat
  dueDay :: nat
  dueOffset :: nat

text \<open>
  \<open>CARD_CYCLE\<close> is an object literal; its keys are enumerated in insertion order, so it
  is an association list here, and \<open>CARD_CYCLE[bank]\<close> is \<open>map_of CARD_CYCLE bank\<close>.
  The \<open>/compra\<close> handler puts the bank in upper case, so a lookup never reaches a
  property inherited from \<open>Object.prototype\<close> (their names have lower-case letters).
\<close>

definition CARD_CYCLE :: "(string \<times> cycle) list" where
  "CARD_CYCLE =
     [(''BBVA'',        \<lparr>cutDay = 24, dueDay = 13, dueOffset = 1\<rparr>),
      (''RAPPICARD'',   \<lparr>cutDay = 6,  dueDay = 26, dueOffset = 0\<rparr>),
      (''HSBC'',        \<lparr>cutDay = 16, dueDay = 5,  dueOffset = 1\<rparr>),
      (''BANAMEX'',     \<lparr>cutDay = 6,  dueDay = 26, dueOffset = 0\<rparr>),
      (''NU'',          \<lparr>cutDay = 7,  dueDay = 19, dueOffset = 0\<rparr>),
      (''MERCADOPAGO'', \<lparr>cutDay = 13, dueDay = 23, dueOffset = 0\<rparr>)]"

definition SKIP_CUT_VALIDATION :: "string set" where
  "SKIP_CUT_VALIDATION = {''CAPITAL'', ''PRESTAMO''}"

definition IMPROVEMENT_THRESHOLD_DAYS :: int where
  "IMPROVEMENT_THRESHOLD_DAYS = 5"

section \<open>Payment window\<close>

definition normalizeToDay :: "jsdate \<Rightarrow> jsdate" where
  "normalizeToDay date = setHours0 date"

definition addMonths :: "jsdate \<Rightarrow> nat \<Rightarrow> jsdate" where
  "addMonths date months = setHours0 (setMonth date (getMonth date + months))"

definition buildDateYMDay :: "jsdate \<Rightarrow> nat \<Rightarrow> jsdate" where
  "buildDateYMDay baseDate day = setHours0 (newDate (getFullYear baseDate) (getMonth baseDate) day)"

definition getNextCutDate :: "jsdate \<Rightarrow> nat \<Rightarrow> jsdate" where
  "getNextCutDate today cutDay' =
     (let cutThisMonth = buildDateYMDay today cutDay'
      in if valueOf today \<le> valueOf cutThisMonth then cutThisMonth
         else buildDateYMDay (addMonths today 1) cutDay')"

record window =
  cutDate :: jsdate
  dueDate :: jsdate
  daysToPay :: int
  cfg :: cycle

text \<open>
  \<open>Math.ceil(a / b)\<close> for an integer \<open>a\<close> and a positive integer \<open>b\<close>: here the
  difference of two time values in milliseconds, over the milliseconds of a day.
\<close>

definition ceilDiv :: "int \<Rightarrow> int \<Rightarrow> int" where
  "ceilDiv a b = - ((- a) div b)"

text \<open>
  The body of \<open>getPaymentWindow\<close> once the cycle of the bank has been found
  (the source's lines from \<open>normalizeToDay\<close> to the returned object).
\<close>

definition windowOf :: "cycle \<Rightarrow> jsdate \<Rightarrow> window" where
  "windowOf c today =
     (let t = normalizeToDay today;
          cut = getNextCutDate t (cutDay c);
          dueBase = addMonths cut (dueOffset c);
          due0 = buildDateYMDay dueBase (dueDay c);
          due = (if valueOf due0 \<le> valueOf cut
                 then buildDateYMDay (addMonths dueBase 1) (dueDay c) else due0)
      in \<lparr>cutDate = cut, dueDate = due,
          daysToPay = max 0 (ceilDiv (valueOf due - valueOf t) msPerDay),
          cfg = c\<rparr>)"

definition getPaymentWindow :: "string \<Rightarrow> jsdate \<Rightarrow> window option" where
  "getPaymentWindow bank today =
     (case map_of CARD_CYCLE bank of
        None \<Rightarrow> None
      | Some c \<Rightarrow> Some (windowOf c today))"

section \<open>Ranking of the cards\<close>

text \<open>An element of the ranking is the object \<open>{ bank, ...w }\<close>: the bank and its window.\<close>

type_synonym ranked = "string \<times> window"

text \<open>
  \<open>Array.prototype.sort\<close> with a comparator is a stable sort: \<open>a\<close> stays before \<open>b\<close>
  unless the comparator puts it after. It is modelled by the stable insertion sort
  below; \<open>cmp a b \<le> 0\<close> reads "\<open>a\<close> need not come after \<open>b\<close>".
\<close>

fun insertBy :: "('a \<Rightarrow> 'a \<Rightarrow> int) \<Rightarrow> 'a \<Rightarrow> 'a list \<Rightarrow> 'a list" where
  "insertBy cmp x [] = [x]"
| "insertBy cmp x (y # ys) = (if cmp x y \<le> 0 then x # y # ys else y # insertBy cmp x ys)"

definition sortBy :: "('a \<Rightarrow> 'a \<Rightarrow> int) \<Rightarrow> 'a list \<Rightarrow> 'a list" where
  "sortBy cmp xs = foldr (insertBy cmp) xs []"

text \<open>\<open>Object.keys(CARD_CYCLE)\<close>: the keys in insertion order.\<close>

definition cardKeys :: "string list" where
  "cardKeys = map fst CARD_CYCLE"

definition rankCardsByDaysToPay :: "jsdate \<Rightarrow> string list \<Rightarrow> ranked list" where
  "rankCardsByDaysToPay today excludeBanks =
     (let ex = set excludeBanks;
          t = normalizeToDay today
      in sortBy (\<lambda>a b. daysToPay (snd b) - daysToPay (snd a))
           (List.map_filter
              (\<lambda>bank. case getPaymentWindow bank t of None \<Rightarrow> None | Some w \<Rightarrow> Some (bank, w))
              (filter (\<lambda>bank. bank \<notin> ex) cardKeys)))"

section \<open>Pending purchases and the confirmation handlers\<close>

record purchase =
  date :: string
  amount :: rat
  months :: nat
  bank :: string
  description :: string
  user :: string

datatype stage = PREVIEW | WARNED

record pending =
  data :: purchase
  createdAt :: int
  stage :: stage

text \<open>
  The key of the store is the string \<open>chatId:userId\<close>, which determines and is determined
  by the pair of the two identifiers.
\<close>

type_synonym key = "int \<times> int"

definition PENDING_TTL_MS :: int where
  "PENDING_TTL_MS = 3 * 60 * 1000"

subsection \<open>The spreadsheet\<close>

datatype cell = Str string | Num rat

text \<open>
  The spreadsheet is outside the program. \<open>sheetsReady\<close> says whether the client was
  created at start-up (\<open>sheets\<close> is not null), \<open>appendSucceeds\<close> whether the service
  accepts the append of this request.
\<close>

record sheetsEnv =
  sheetsReady :: bool
  appendSucceeds :: bool

datatype error = SheetsNotReady | AppendRejected

definition rowOf :: "purchase \<Rightarrow> cell list" where
  "rowOf p =
     [Str (description p), Str (user p), Str (date p), Str ''ACTIVA'', Num (amount p), Str [],
      Num (of_nat (months p)), Str (bank p), Str [], Str [], Str []]"

definition savePurchaseToSheets ::
  "sheetsEnv \<Rightarrow> purchase \<Rightarrow> cell list list \<Rightarrow> error + cell list list" where
  "savePurchaseToSheets env p rows =
     (if \<not> sheetsReady env then Inl SheetsNotReady
      else if \<not> appendSucceeds env then Inl AppendRejected
      else Inr (rows @ [rowOf p]))"

subsection \<open>What the handlers send to the chat\<close>

text \<open>
  The texts of the bot, by what they say: "No hay una compra pendiente.", "Esta
  confirmacion expiro.", "Compra guardada exitosamente.", the card recommendation (the
  chosen bank, its window and the first three of the ranking, with the buttons "OK
  Guardar" and "Cancelar"), "Error al guardar la compra." and "Compra cancelada.".
  The calls to the chat are taken to succeed.
\<close>

datatype message =
    NoPendingPurchase
  | ConfirmationExpired
  | PurchaseSaved
  | CardRecommendation string window "ranked list"
  | SaveFailed
  | PurchaseCancelled

datatype effect = AnswerCbQuery "message option" | EditMessageText message

record world =
  pendingPurchases :: "key \<rightharpoonup> pending"
  sheetRows :: "cell list list"

abbreviation expiredFx :: "effect list" where
  "expiredFx \<equiv> [EditMessageText ConfirmationExpired, AnswerCbQuery None]"

abbreviation savedFx :: "effect list" where
  "savedFx \<equiv> [EditMessageText PurchaseSaved, AnswerCbQuery None]"

abbreviation failedFx :: "effect list" where
  "failedFx \<equiv> [EditMessageText SaveFailed, AnswerCbQuery None]"

abbreviation cancelledFx :: "effect list" where
  "cancelledFx \<equiv> [EditMessageText PurchaseCancelled, AnswerCbQuery None]"

abbreviation nothingPendingFx :: "effect list" where
  "nothingPendingFx \<equiv> [AnswerCbQuery (Some NoPendingPurchase)]"

fun isWarning :: "effect list \<Rightarrow> bool" where
  "isWarning [EditMessageText (CardRecommendation b w r), AnswerCbQuery None] = True"
| "isWarning fx = False"

subsection \<open>The handlers\<close>

text \<open>The \<open>/compra\<close> handler stores the parsed purchase, replacing what the key held.\<close>

definition compra :: "int \<Rightarrow> purchase \<Rightarrow> key \<Rightarrow> world \<Rightarrow> world" where
  "compra now purchaseData k w =
     w\<lparr>pendingPurchases := (pendingPurchases w)
          (k \<mapsto> \<lparr>data = purchaseData, createdAt = now, stage = PREVIEW\<rparr>)\<rparr>"

text \<open>
  The four statements every saving branch of the two confirm handlers runs:
  save, delete the entry, "saved", answer. When the save throws, control passes to the
  handler's \<open>catch\<close>, which only reports the error: nothing has been changed by then.
\<close>

definition saveAndDelete :: "sheetsEnv \<Rightarrow> purchase \<Rightarrow> key \<Rightarrow> world \<Rightarrow> world \<times> effect list" where
  "saveAndDelete env p k w =
     (case savePurchaseToSheets env p (sheetRows w) of
        Inl e \<Rightarrow> (w, failedFx)
      | Inr rows \<Rightarrow>
          (w\<lparr>sheetRows := rows, pendingPurchases := (pendingPurchases w)(k := None)\<rparr>, savedFx))"

definition shouldWarn :: "ranked list \<Rightarrow> window \<Rightarrow> pending \<Rightarrow> bool" where
  "shouldWarn ranking chosen pend =
     (case ranking of
        [] \<Rightarrow> False
      | bestAlt # _ \<Rightarrow>
          daysToPay chosen + IMPROVEMENT_THRESHOLD_DAYS \<le> daysToPay (snd bestAlt)
          \<and> stage pend \<noteq> WARNED)"

text \<open>
  \<open>confirm_purchase\<close> reads the clock three times: \<open>now\<close> for the expiry, \<open>chosenAt\<close>
  for the window of the chosen card and \<open>rankedAt\<close> for the ranking.
\<close>

definition confirm_purchase ::
  "sheetsEnv \<Rightarrow> int \<Rightarrow> jsdate \<Rightarrow> jsdate \<Rightarrow> key \<Rightarrow> world \<Rightarrow> world \<times> effect list" where
  "confirm_purchase env now chosenAt rankedAt k w =
     (case pendingPurchases w k of
        None \<Rightarrow> (w, nothingPendingFx)
      | Some pend \<Rightarrow>
          if now - createdAt pend > PENDING_TTL_MS
          then (w\<lparr>pendingPurchases := (pendingPurchases w)(k := None)\<rparr>, expiredFx)
          else
            let p = data pend in
            if bank p \<in> SKIP_CUT_VALIDATION then saveAndDelete env p k w
            else
              (case getPaymentWindow (bank p) chosenAt of
                 None \<Rightarrow> saveAndDelete env p k w
               | Some chosen \<Rightarrow>
                   let ranking = rankCardsByDaysToPay rankedAt [bank p] in
                   if shouldWarn ranking chosen pend
                   then (w\<lparr>pendingPurchases := (pendingPurchases w)(k \<mapsto> pend\<lparr>stage := WARNED\<rparr>)\<rparr>,
                         [EditMessageText (CardRecommendation (bank p) chosen (take 3 ranking)),
                          AnswerCbQuery None])
                   else saveAndDelete env p k w))"

definition confirm_purchase_ok :: "sheetsEnv \<Rightarrow> int \<Rightarrow> key \<Rightarrow> world \<Rightarrow> world \<times> effect list" where
  "confirm_purchase_ok env now k w =
     (case pendingPurchases w k of
        None \<Rightarrow> (w, nothingPendingFx)
      | Some pend \<Rightarrow>
          if now - createdAt pend > PENDING_TTL_MS
          then (w\<lparr>pendingPurchases := (pendingPurchases w)(k := None)\<rparr>, expiredFx)
          else saveAndDelete env (data pend) k w)"

definition cancel_purchase :: "key \<Rightarrow> world \<Rightarrow> world \<times> effect list" where
  "cancel_purchase k w =
     (w\<lparr>pendingPurchases := (pendingPurchases w)(k := None)\<rparr>, cancelledFx)"

text \<open>The timer that runs every 30 seconds.\<close>

definition sweepExpired :: "int \<Rightarrow> world \<Rightarrow> world" where
  "sweepExpired now w =
     w\<lparr>pendingPurchases :=
         (\<lambda>k. case pendingPurchases w k of
                 None \<Rightarrow> None
               | Some v \<Rightarrow> if now - createdAt v > PENDING_TTL_MS then None else Some v)\<rparr>"

section \<open>Months on a line\<close>

text \<open>
  For the proofs, months are numbered along the calendar: month \<open>m\<close> of year \<open>y\<close> is
  number \<open>12 * y + m\<close>, and \<open>monthStart\<close> is the day number of its first day.
\<close>

definition monthIdx :: "jsdate \<Rightarrow> int" where
  "monthIdx d = 12 * getFullYear d + int (getMonth d)"

definition monthStart :: "int \<Rightarrow> int" where
  "monthStart i = dayFromYear (i div 12) + int (daysBeforeMonth (i div 12) (nat (i mod 12)))"

section \<open>Sample data\<close>

definition ymd :: "int \<Rightarrow> nat \<Rightarrow> nat \<Rightarrow> jsdate" where
  "ymd y m d = \<lparr>getFullYear = y, getMonth = m, getDate = d, msOfDay = 0\<rparr>"

definition samplePurchase :: "string \<Rightarrow> purchase" where
  "samplePurchase b =
     \<lparr>date = ''02/11/2026'', amount = 9000, months = 12, bank = b,
      description = ''Pantalla'', user = ''Ana''\<rparr>"

definition samplePending :: "string \<Rightarrow> stage \<Rightarrow> pending" where
  "samplePending b s = \<lparr>data = samplePurchase b, createdAt = 1000, stage = s\<rparr>"

definition sampleWorld :: "string \<Rightarrow> stage \<Rightarrow> world" where
  "sampleWorld b s = \<lparr>pendingPurchases = [(1, 7) \<mapsto> samplePending b s], sheetRows = []\<rparr>"

definition sampleWindow :: "int \<Rightarrow> window" where
  "sampleWindow n =
     \<lparr>cutDate = ymd 2026 10 6, dueDate = ymd 2026 10 26, daysToPay = n,
      cfg = \<lparr>cutDay = 6, dueDay = 26, dueOffset = 0\<rparr>\<rparr>"

definition sheetsUp :: sheetsEnv where
  "sheetsUp = \<lparr>sheetsReady = True, appendSucceeds = True\<rparr>"

definition sheetsDown :: sheetsEnv where
  "sheetsDown = \<lparr>sheetsReady = True, appendSucceeds = False\<rparr>"

section \<open>Facts about the calendar\<close>

lemma div_step:
  fixes a k :: int
  assumes "0 < k"
  shows "(a + 1) div k = a div k + (if (a + 1) mod k = 0 then 1 else 0)"
proof (cases "a mod k + 1 = k")
  case True
  have "a + 1 = k * (a div k + 1) + 0" using True
    by (metis add.assoc add.right_neutral distrib_left mult.right_neutral mult_div_mod_eq)
  from int_div_pos_eq[OF this] int_mod_pos_eq[OF this] assms show ?thesis by simp
next
  case False
  have r: "0 \<le> a mod k" "a mod k < k" using assms by simp_all
  have e: "a + 1 = k * (a div k) + (a mod k + 1)" by simp
  have "(a + 1) div k = a div k" "(a + 1) mod k = a mod k + 1"
    using int_div_pos_eq[OF e] int_mod_pos_eq[OF e] r False by simp_all
  then show ?thesis using r by simp
qed

lemma mod_shift: "((y::int) - q * k) mod k = y mod k"
  by (metis diff_conv_add_uminus mod_mult_self1 mult_minus_left)

lemma dayFromYear_step: "dayFromYear (y + 1) = dayFromYear y + (if isLeap y then 366 else 365)"
proof -
  have a: "(y + 1 - 1969) div 4 = (y - 1969) div 4 + (if y mod 4 = 0 then 1 else 0)"
    using div_step[of 4 "y - 1969"] mod_shift[of y 492 4] by simp
  have b: "(y + 1 - 1901) div 100 = (y - 1901) div 100 + (if y mod 100 = 0 then 1 else 0)"
    using div_step[of 100 "y - 1901"] mod_shift[of y 19 100] by simp
  have c: "(y + 1 - 1601) div 400 = (y - 1601) div 400 + (if y mod 400 = 0 then 1 else 0)"
    using div_step[of 400 "y - 1601"] mod_shift[of y 4 400] by simp
  have d1: "y mod 400 = 0 \<Longrightarrow> y mod 100 = 0"
    using mod_mod_cancel[of 100 400 y] by simp
  have d2: "y mod 100 = 0 \<Longrightarrow> y mod 4 = 0"
    using mod_mod_cancel[of 4 100 y] by simp
  show ?thesis unfolding dayFromYear_def isLeap_def a b c using d1 d2 by (simp split: if_splits)
qed

lemma daysBeforeMonth_12: "daysBeforeMonth y 12 = (if isLeap y then 366 else 365)"
  by (simp add: daysBeforeMonth_def daysInMonth_def upt_rec)

lemma daysBeforeMonth_Suc: "daysBeforeMonth y (Suc m) = daysBeforeMonth y m + daysInMonth y m"
  by (simp add: daysBeforeMonth_def)

lemma daysInMonth_bounds: "28 \<le> daysInMonth y m" "daysInMonth y m \<le> 31"
  by (simp_all add: daysInMonth_def)


lemma monthStart_step:
  "monthStart (i + 1) = monthStart i + int (daysInMonth (i div 12) (nat (i mod 12)))"
proof (cases "i mod 12 = 11")
  case True
  have "i + 1 = 12 * (i div 12 + 1) + 0"
    using True mult_div_mod_eq[of 12 i] by simp
  from int_div_pos_eq[OF this] int_mod_pos_eq[OF this]
  have dm: "(i + 1) div 12 = i div 12 + 1" "(i + 1) mod 12 = 0" by simp_all
  have y: "dayFromYear (i div 12 + 1) = dayFromYear (i div 12) + int (daysBeforeMonth (i div 12) 12)"
    by (simp add: dayFromYear_step daysBeforeMonth_12)
  have "daysBeforeMonth (i div 12) 12 = daysBeforeMonth (i div 12) 11 + daysInMonth (i div 12) 11"
    using daysBeforeMonth_Suc[of "i div 12" 11] by simp
  moreover have "daysBeforeMonth (i div 12 + 1) 0 = 0"
    by (simp add: daysBeforeMonth_def)
  ultimately show ?thesis
    unfolding monthStart_def dm y using True by simp
next
  case False
  have r: "0 \<le> i mod 12" "i mod 12 < 12" by simp_all
  have e: "i + 1 = 12 * (i div 12) + (i mod 12 + 1)" by simp
  have dm: "(i + 1) div 12 = i div 12" "(i + 1) mod 12 = i mod 12 + 1"
    using int_div_pos_eq[OF e] int_mod_pos_eq[OF e] r False by simp_all
  have "nat (i mod 12 + 1) = Suc (nat (i mod 12))" using r by simp
  then show ?thesis
    unfolding monthStart_def dm by (simp add: daysBeforeMonth_Suc)
qed

lemma monthStart_mono: "i \<le> j \<Longrightarrow> monthStart i \<le> monthStart j"
proof (induct j rule: int_ge_induct)
  case base
  show ?case by simp
next
  case (step j)
  then show ?case using monthStart_step[of j] by simp
qed

lemma monthStart_less: "i < j \<Longrightarrow> monthStart (i + 1) \<le> monthStart j"
  by (rule monthStart_mono) simp

lemma dayNumber_in_month:
  assumes "validDate d"
  shows "monthStart (monthIdx d) \<le> dayNumber d" "dayNumber d < monthStart (monthIdx d + 1)"
proof -
  have m: "getMonth d < 12" and d1: "1 \<le> getDate d"
    and d2: "getDate d \<le> daysInMonth (getFullYear d) (getMonth d)"
    using assms by (simp_all add: validDate_def)
  have s: "monthStart (monthIdx d) =
      dayFromYear (getFullYear d) + int (daysBeforeMonth (getFullYear d) (getMonth d))"
    unfolding monthStart_def monthIdx_def using m by simp
  show "monthStart (monthIdx d) \<le> dayNumber d"
    unfolding s dayNumber_def using d1 by simp
  have "monthStart (monthIdx d + 1) =
      monthStart (monthIdx d) + int (daysInMonth (getFullYear d) (getMonth d))"
    unfolding monthStart_step unfolding monthIdx_def using m by simp
  then show "dayNumber d < monthStart (monthIdx d + 1)"
    unfolding s dayNumber_def using d2 by simp
qed

lemma dayNumber_mono:
  assumes "validDate a" "validDate b" "monthIdx a < monthIdx b"
  shows "dayNumber a < dayNumber b"
  using dayNumber_in_month(2)[OF assms(1)] dayNumber_in_month(1)[OF assms(2)]
    monthStart_less[OF assms(3)] by linarith


lemma rollDay_valid: "m < 12 \<Longrightarrow> validDate (rollDay y m d)"
proof (induction y m d rule: rollDay.induct)
  case (1 y m d)
  show ?case
  proof (cases "d = 0")
    case True
    then show ?thesis using 1(3)
      by (subst rollDay.simps) (auto simp: validDate_def daysInMonth_def msPerDay_def)
  next
    case d: False
    show ?thesis
    proof (cases "daysInMonth y m < d")
      case False
      then show ?thesis using d 1(3)
        by (subst rollDay.simps) (simp add: validDate_def msPerDay_def)
    next
      case True
      show ?thesis
      proof (cases "m = 11")
        case True
        with 1(1)[OF d \<open>daysInMonth y m < d\<close>] show ?thesis
          using d \<open>daysInMonth y m < d\<close> by (subst rollDay.simps) simp
      next
        case False
        with 1(2)[OF d \<open>daysInMonth y m < d\<close>] 1(3) show ?thesis
          using d \<open>daysInMonth y m < d\<close> by (subst rollDay.simps) simp
      qed
    qed
  qed
qed

lemma rollDay_ms: "msOfDay (rollDay y m d) = 0"
proof (induction y m d rule: rollDay.induct)
  case (1 y m d)
  then show ?case by (subst rollDay.simps) simp
qed

lemma rollDay_idx: "m < 12 \<Longrightarrow> 1 \<le> d \<Longrightarrow> 12 * y + int m \<le> monthIdx (rollDay y m d)"
proof (induction y m d rule: rollDay.induct)
  case (1 y m d)
  have d: "d \<noteq> 0" using 1(4) by simp
  show ?case
  proof (cases "daysInMonth y m < d")
    case False
    then show ?thesis using d
      by (subst rollDay.simps) (simp add: monthIdx_def)
  next
    case True
    have pos: "1 \<le> d - daysInMonth y m" using True by simp
    show ?thesis
    proof (cases "m = 11")
      case True
      with 1(1)[OF d \<open>daysInMonth y m < d\<close>] pos show ?thesis
        using d \<open>daysInMonth y m < d\<close> by (subst rollDay.simps) simp
    next
      case False
      with 1(2)[OF d \<open>daysInMonth y m < d\<close>] 1(3) pos show ?thesis
        using d \<open>daysInMonth y m < d\<close> by (subst rollDay.simps) simp
    qed
  qed
qed

lemma rollDay_id:
  "1 \<le> d \<Longrightarrow> d \<le> daysInMonth y m \<Longrightarrow>
   rollDay y m d = \<lparr>getFullYear = y, getMonth = m, getDate = d, msOfDay = 0\<rparr>"
  by (subst rollDay.simps) simp


lemma makeDay_valid: "validDate (makeDay y m d)"
  unfolding makeDay_def by (rule rollDay_valid) simp

lemma makeDay_idx: "1 \<le> d \<Longrightarrow> 12 * y + int m \<le> monthIdx (makeDay y m d)"
proof -
  assume d: "1 \<le> d"
  have "12 * (y + int (m div 12)) + int (m mod 12) = 12 * y + int m"
    by (simp add: zdiv_int zmod_int)
  then show ?thesis
    unfolding makeDay_def using rollDay_idx[of "m mod 12" d "y + int (m div 12)"] d by simp
qed

lemma setHours0_valid: "validDate d \<Longrightarrow> validDate (setHours0 d)"
  by (simp add: validDate_def setHours0_def msPerDay_def)

lemma setHours0_idx: "monthIdx (setHours0 d) = monthIdx d"
  by (simp add: monthIdx_def setHours0_def)

lemma buildDateYMDay_valid: "validDate (buildDateYMDay b d)"
  unfolding buildDateYMDay_def newDate_def by (rule setHours0_valid) (rule makeDay_valid)

lemma buildDateYMDay_ms: "msOfDay (buildDateYMDay b d) = 0"
  by (simp add: buildDateYMDay_def setHours0_def)

lemma buildDateYMDay_idx: "1 \<le> d \<Longrightarrow> monthIdx b \<le> monthIdx (buildDateYMDay b d)"
proof -
  assume d: "1 \<le> d"
  let ?y = "fullYearOf (getFullYear b)"
  have "12 * ?y + int (getMonth b) \<le> monthIdx (makeDay ?y (getMonth b) d)"
    by (rule makeDay_idx[OF d])
  moreover have "monthIdx b \<le> 12 * ?y + int (getMonth b)"
    by (simp add: monthIdx_def fullYearOf_def)
  ultimately show ?thesis
    unfolding buildDateYMDay_def newDate_def setHours0_idx by linarith
qed

lemma addMonths_valid: "validDate (addMonths d k)"
  unfolding addMonths_def setMonth_def
  using makeDay_valid[of "getFullYear d" "getMonth d + k" "getDate d"]
  by (simp add: validDate_def setHours0_def msPerDay_def)

lemma addMonths_idx: "1 \<le> getDate d \<Longrightarrow> monthIdx d + int k \<le> monthIdx (addMonths d k)"
  unfolding addMonths_def setMonth_def
  using makeDay_idx[of "getDate d" "getFullYear d" "getMonth d + k"]
  by (simp add: monthIdx_def setHours0_def)

lemma valueOf_midnight: "msOfDay d = 0 \<Longrightarrow> valueOf d = dayNumber d * msPerDay"
  by (simp add: valueOf_def)

lemma valueOf_less:
  assumes "validDate a" "validDate b" "msOfDay a = 0" "msOfDay b = 0" "monthIdx a < monthIdx b"
  shows "valueOf a < valueOf b"
  using dayNumber_mono[OF assms(1,2,5)] assms(3,4)
  by (simp add: valueOf_midnight msPerDay_def)

lemma getNextCutDate_valid: "validDate (getNextCutDate t c)" "msOfDay (getNextCutDate t c) = 0"
  by (simp_all add: getNextCutDate_def Let_def buildDateYMDay_valid buildDateYMDay_ms)

lemma windowOf_cut_before_due:
  assumes "1 \<le> dueDay c"
  shows "valueOf (cutDate (windowOf c today)) < valueOf (dueDate (windowOf c today))"
proof -
  define t where "t = normalizeToDay today"
  define cut where "cut = getNextCutDate t (cutDay c)"
  define dueBase where "dueBase = addMonths cut (dueOffset c)"
  define due0 where "due0 = buildDateYMDay dueBase (dueDay c)"
  define due1 where "due1 = buildDateYMDay (addMonths dueBase 1) (dueDay c)"
  have w: "cutDate (windowOf c today) = cut"
    "dueDate (windowOf c today) = (if valueOf due0 \<le> valueOf cut then due1 else due0)"
    by (simp_all add: windowOf_def Let_def t_def cut_def dueBase_def due0_def due1_def)
  have cv: "validDate cut" "msOfDay cut = 0"
    unfolding cut_def by (rule getNextCutDate_valid)+
  then have c1: "1 \<le> getDate cut" by (simp add: validDate_def)
  have bv: "validDate dueBase" unfolding dueBase_def by (rule addMonths_valid)
  then have b1: "1 \<le> getDate dueBase" by (simp add: validDate_def)
  have "monthIdx cut \<le> monthIdx dueBase"
    unfolding dueBase_def using addMonths_idx[OF c1, of "dueOffset c"] by simp
  moreover have "monthIdx dueBase + 1 \<le> monthIdx (addMonths dueBase 1)"
    using addMonths_idx[OF b1, of 1] by simp
  moreover have "monthIdx (addMonths dueBase 1) \<le> monthIdx due1"
    unfolding due1_def by (rule buildDateYMDay_idx[OF assms])
  ultimately have "monthIdx cut < monthIdx due1" by linarith
  moreover have "validDate due1" "msOfDay due1 = 0"
    unfolding due1_def by (rule buildDateYMDay_valid, rule buildDateYMDay_ms)
  ultimately have "valueOf cut < valueOf due1"
    using valueOf_less cv by blast
  then show ?thesis unfolding w by simp
qed

lemma windowOf_daysToPay_nonneg: "0 \<le> daysToPay (windowOf c today)"
  by (simp add: windowOf_def Let_def)

lemma fullYearOf_idem: "fullYearOf (fullYearOf y) = fullYearOf y"
  by (simp add: fullYearOf_def)

lemma buildDateYMDay_exact:
  assumes "getMonth b < 12" "1 \<le> d" "d \<le> 28"
  shows "buildDateYMDay b d =
    \<lparr>getFullYear = fullYearOf (getFullYear b), getMonth = getMonth b, getDate = d, msOfDay = 0\<rparr>"
proof -
  have "d \<le> daysInMonth (fullYearOf (getFullYear b)) (getMonth b)"
    using assms(3) daysInMonth_bounds(1)[of "fullYearOf (getFullYear b)" "getMonth b"] by linarith
  then show ?thesis
    unfolding buildDateYMDay_def newDate_def makeDay_def setHours0_def
    using assms(1,2) by (simp add: rollDay_id)
qed

lemma getNextCutDate_exact:
  assumes "validDate t" "1 \<le> c" "c \<le> 28"
  shows "\<exists>Y M. getNextCutDate t c = \<lparr>getFullYear = Y, getMonth = M, getDate = c, msOfDay = 0\<rparr>
           \<and> M < 12 \<and> fullYearOf Y = Y"
proof -
  have m1: "getMonth t < 12" using assms(1) by (simp add: validDate_def)
  have m2: "getMonth (addMonths t 1) < 12"
    using addMonths_valid[of t 1] by (simp add: validDate_def)
  show ?thesis
    unfolding getNextCutDate_def Let_def
    using buildDateYMDay_exact[OF m1 assms(2,3)] buildDateYMDay_exact[OF m2 assms(2,3)] m1 m2
    by (simp add: fullYearOf_idem)
qed

lemma addMonths_zero:
  assumes "validDate d" "msOfDay d = 0"
  shows "addMonths d 0 = d"
proof -
  have "getMonth d < 12" "1 \<le> getDate d" "getDate d \<le> daysInMonth (getFullYear d) (getMonth d)"
    using assms(1) by (simp_all add: validDate_def)
  then show ?thesis
    unfolding addMonths_def setMonth_def makeDay_def setHours0_def
    using assms(2) by (simp add: rollDay_id)
qed

lemma windowOf_rolled_forward:
  assumes "validDate today" "dueOffset c = 0" "1 \<le> dueDay c" "dueDay c < cutDay c" "cutDay c \<le> 28"
  shows "dueDate (windowOf c today) =
         buildDateYMDay (addMonths (cutDate (windowOf c today)) 1) (dueDay c)"
proof -
  define t where "t = normalizeToDay today"
  define cut where "cut = getNextCutDate t (cutDay c)"
  have tv: "validDate t" unfolding t_def normalizeToDay_def by (rule setHours0_valid[OF assms(1)])
  have c1: "1 \<le> cutDay c" using assms(3,4) by simp
  obtain Y M where cutE: "cut = \<lparr>getFullYear = Y, getMonth = M, getDate = cutDay c, msOfDay = 0\<rparr>"
    and M: "M < 12" and Y: "fullYearOf Y = Y"
    using getNextCutDate_exact[OF tv c1 assms(5)] unfolding cut_def by blast
  have cv: "validDate cut" "msOfDay cut = 0"
    unfolding cut_def by (rule getNextCutDate_valid)+
  have base: "addMonths cut (dueOffset c) = cut"
    unfolding assms(2) by (rule addMonths_zero[OF cv])
  have d28: "dueDay c \<le> 28" using assms(4,5) by simp
  have due0: "buildDateYMDay cut (dueDay c) =
      \<lparr>getFullYear = Y, getMonth = M, getDate = dueDay c, msOfDay = 0\<rparr>"
    using buildDateYMDay_exact[of cut "dueDay c"] M Y assms(3) d28 unfolding cutE by simp
  have "valueOf (buildDateYMDay cut (dueDay c)) \<le> valueOf cut"
    unfolding due0 unfolding cutE valueOf_def dayNumber_def using assms(4)
    by (simp add: msPerDay_def)
  then show ?thesis
    unfolding windowOf_def Let_def t_def[symmetric] cut_def[symmetric] base by simp
qed

lemma catalog_dueDay: "map_of CARD_CYCLE b = Some c \<Longrightarrow> 1 \<le> dueDay c"
  by (auto simp: CARD_CYCLE_def split: if_splits)

section \<open>C1: the cut date comes strictly before the due date\<close>

text \<open>
  Claim C1. For every card of the catalog and every reference date, \<open>getPaymentWindow\<close>
  returns a window whose cut date is strictly before its due date and whose
  \<open>daysToPay\<close> is a non-negative integer. The same holds for any cycle whose due day
  is at least 1, whatever its cut day and offset, days past the end of a month included.
  For a degenerate cycle (offset 0, due day before the cut day, both days that every
  month has) the due date is the one of the second branch: built from the cut date
  advanced by one month.
\<close>

theorem getPaymentWindow_cut_before_due:
  "(\<forall>b c. map_of CARD_CYCLE b = Some c \<longrightarrow>
      (\<exists>w. getPaymentWindow b today = Some w
          \<and> valueOf (cutDate w) < valueOf (dueDate w) \<and> 0 \<le> daysToPay w))
   \<and> (1 \<le> dueDay c \<longrightarrow>
        valueOf (cutDate (windowOf c today)) < valueOf (dueDate (windowOf c today))
        \<and> 0 \<le> daysToPay (windowOf c today))
   \<and> (validDate today \<and> dueOffset c = 0 \<and> 1 \<le> dueDay c \<and> dueDay c < cutDay c \<and> cutDay c \<le> 28 \<longrightarrow>
        dueDate (windowOf c today) =
          buildDateYMDay (addMonths (cutDate (windowOf c today)) 1) (dueDay c))"
proof (intro conjI allI impI)
  fix b c' assume "map_of CARD_CYCLE b = Some c'"
  then show "\<exists>w. getPaymentWindow b today = Some w
          \<and> valueOf (cutDate w) < valueOf (dueDate w) \<and> 0 \<le> daysToPay w"
    using windowOf_cut_before_due[OF catalog_dueDay, of b c' today] windowOf_daysToPay_nonneg[of c' today]
    by (simp add: getPaymentWindow_def)
next
  assume "1 \<le> dueDay c"
  then show "valueOf (cutDate (windowOf c today)) < valueOf (dueDate (windowOf c today))"
    by (rule windowOf_cut_before_due)
next
  show "0 \<le> daysToPay (windowOf c today)" by (rule windowOf_daysToPay_nonneg)
next
  assume "validDate today \<and> dueOffset c = 0 \<and> 1 \<le> dueDay c \<and> dueDay c < cutDay c \<and> cutDay c \<le> 28"
  then show "dueDate (windowOf c today) =
          buildDateYMDay (addMonths (cutDate (windowOf c today)) 1) (dueDay c)"
    using windowOf_rolled_forward by blast
qed

theorem getPaymentWindow_cut_before_due_witness:
  "map_of CARD_CYCLE ''BBVA'' = Some \<lparr>cutDay = 24, dueDay = 13, dueOffset = 1\<rparr>
   \<and> (\<exists>w. getPaymentWindow ''BBVA'' (ymd 2026 10 2) = Some w
          \<and> valueOf (cutDate w) < valueOf (dueDate w) \<and> 0 \<le> daysToPay w)
   \<and> validDate (ymd 2026 10 2)
   \<and> valueOf (cutDate (windowOf \<lparr>cutDay = 20, dueDay = 5, dueOffset = 0\<rparr> (ymd 2026 10 2)))
       < valueOf (dueDate (windowOf \<lparr>cutDay = 20, dueDay = 5, dueOffset = 0\<rparr> (ymd 2026 10 2)))
   \<and> dueDate (windowOf \<lparr>cutDay = 20, dueDay = 5, dueOffset = 0\<rparr> (ymd 2026 10 2)) =
       buildDateYMDay
         (addMonths (cutDate (windowOf \<lparr>cutDay = 20, dueDay = 5, dueOffset = 0\<rparr> (ymd 2026 10 2))) 1)
         (dueDay \<lparr>cutDay = 20, dueDay = 5, dueOffset = 0\<rparr>)
   \<and> cutDate (windowOf \<lparr>cutDay = 20, dueDay = 5, dueOffset = 0\<rparr> (ymd 2026 10 2)) = ymd 2026 10 20
   \<and> dueDate (windowOf \<lparr>cutDay = 20, dueDay = 5, dueOffset = 0\<rparr> (ymd 2026 10 2)) = ymd 2026 11 5"
proof -
  let ?C = "\<lparr>cutDay = 20, dueDay = 5, dueOffset = 0\<rparr>"
  let ?D = "ymd 2026 10 2"
  have h: "map_of CARD_CYCLE ''BBVA'' = Some \<lparr>cutDay = 24, dueDay = 13, dueOffset = 1\<rparr>"
    by (simp add: CARD_CYCLE_def)
  have v: "validDate ?D" by code_simp
  have h2: "1 \<le> dueDay ?C" by simp
  have h3: "validDate ?D \<and> dueOffset ?C = 0 \<and> 1 \<le> dueDay ?C \<and> dueDay ?C < cutDay ?C \<and> cutDay ?C \<le> 28"
    using v by simp
  have e: "cutDate (windowOf ?C ?D) = ymd 2026 10 20" "dueDate (windowOf ?C ?D) = ymd 2026 11 5"
    by code_simp+
  from getPaymentWindow_cut_before_due[of ?D ?C] h v h2 h3
  have "(\<exists>w. getPaymentWindow ''BBVA'' ?D = Some w
          \<and> valueOf (cutDate w) < valueOf (dueDate w) \<and> 0 \<le> daysToPay w)
     \<and> valueOf (cutDate (windowOf ?C ?D)) < valueOf (dueDate (windowOf ?C ?D))
     \<and> dueDate (windowOf ?C ?D) =
         buildDateYMDay (addMonths (cutDate (windowOf ?C ?D)) 1) (dueDay ?C)"
    by blast
  with h v e show ?thesis by (intro conjI) blast+
qed

section \<open>Facts about the handlers\<close>

lemma compra_stores_preview:
  "pendingPurchases (compra now purchaseData k w) k =
     Some \<lparr>data = purchaseData, createdAt = now, stage = PREVIEW\<rparr>"
  by (simp add: compra_def)

lemma remove_absent: "pendingPurchases w k = None \<Longrightarrow> w\<lparr>pendingPurchases := (pendingPurchases w)(k := None)\<rparr> = w"
  by (simp add: fun_upd_idem)

lemma saveAndDelete_up:
  "sheetsReady env \<Longrightarrow> appendSucceeds env \<Longrightarrow>
   saveAndDelete env p k w =
     (w\<lparr>sheetRows := sheetRows w @ [rowOf p], pendingPurchases := (pendingPurchases w)(k := None)\<rparr>,
      savedFx)"
  by (simp add: saveAndDelete_def savePurchaseToSheets_def)

lemma saveAndDelete_down:
  "\<not> sheetsReady env \<or> \<not> appendSucceeds env \<Longrightarrow> saveAndDelete env p k w = (w, failedFx)"
  by (auto simp: saveAndDelete_def savePurchaseToSheets_def)

lemma saveAndDelete_not_warning: "\<not> isWarning (snd (saveAndDelete env p k w))"
  by (simp add: saveAndDelete_def split: sum.splits)

lemma saveAndDelete_failed: "snd (saveAndDelete env p k w) = failedFx \<Longrightarrow> fst (saveAndDelete env p k w) = w"
  by (simp add: saveAndDelete_def split: sum.splits)

lemma confirm_purchase_ok_live:
  "pendingPurchases w k = Some p \<Longrightarrow> now - createdAt p \<le> PENDING_TTL_MS \<Longrightarrow>
   confirm_purchase_ok env now k w = saveAndDelete env (data p) k w"
  by (simp add: confirm_purchase_ok_def)

lemma confirm_purchase_warned:
  "pendingPurchases w k = Some p \<Longrightarrow> now - createdAt p \<le> PENDING_TTL_MS \<Longrightarrow> stage p = WARNED \<Longrightarrow>
   confirm_purchase env now a b k w = saveAndDelete env (data p) k w"
  by (simp add: confirm_purchase_def shouldWarn_def Let_def split: option.splits list.splits)

lemma confirm_purchase_exempt:
  "pendingPurchases w k = Some p \<Longrightarrow> now - createdAt p \<le> PENDING_TTL_MS \<Longrightarrow>
   bank (data p) \<in> SKIP_CUT_VALIDATION \<or> map_of CARD_CYCLE (bank (data p)) = None \<Longrightarrow>
   confirm_purchase env now a b k w = saveAndDelete env (data p) k w"
  by (auto simp: confirm_purchase_def getPaymentWindow_def Let_def)

lemma confirm_purchase_cases:
  assumes "pendingPurchases w k = Some p" "now - createdAt p \<le> PENDING_TTL_MS"
  shows "confirm_purchase env now a b k w = saveAndDelete env (data p) k w
       \<or> (stage p \<noteq> WARNED \<and> isWarning (snd (confirm_purchase env now a b k w))
          \<and> fst (confirm_purchase env now a b k w) =
              w\<lparr>pendingPurchases := (pendingPurchases w)(k \<mapsto> p\<lparr>stage := WARNED\<rparr>)\<rparr>)"
  using assms
  by (auto simp: confirm_purchase_def shouldWarn_def Let_def split: option.splits list.splits)

lemma confirm_purchase_expired:
  "pendingPurchases w k = Some p \<Longrightarrow> now - createdAt p > PENDING_TTL_MS \<Longrightarrow>
   confirm_purchase env now a b k w =
     (w\<lparr>pendingPurchases := (pendingPurchases w)(k := None)\<rparr>, expiredFx)"
  by (simp add: confirm_purchase_def)

lemma confirm_purchase_absent:
  "pendingPurchases w k = None \<Longrightarrow> confirm_purchase env now a b k w = (w, nothingPendingFx)"
  by (simp add: confirm_purchase_def)

section \<open>C2: actions on an expired entry\<close>

text \<open>
  Claim C2, as amended. On a pending entry older than the TTL, confirm and
  confirm-anyway remove the entry, save nothing and report that the confirmation
  expired. Cancel does not read the clock: it removes the entry, saves nothing and
  reports the cancellation. A run of the sweep changes none of this: either it leaves
  the entry, and the confirm actions find it expired, or it has removed the entry, and
  they answer that nothing is pending.
\<close>

theorem expired_entry_is_removed:
  assumes "pendingPurchases w k = Some p" and "now - createdAt p > PENDING_TTL_MS"
  shows "confirm_purchase env now a b k w =
           (w\<lparr>pendingPurchases := (pendingPurchases w)(k := None)\<rparr>, expiredFx)
       \<and> confirm_purchase_ok env now k w =
           (w\<lparr>pendingPurchases := (pendingPurchases w)(k := None)\<rparr>, expiredFx)
       \<and> cancel_purchase k w =
           (w\<lparr>pendingPurchases := (pendingPurchases w)(k := None)\<rparr>, cancelledFx)
       \<and> confirm_purchase env now a b k (sweepExpired s w) =
           (if s - createdAt p > PENDING_TTL_MS then (sweepExpired s w, nothingPendingFx)
            else ((sweepExpired s w)\<lparr>pendingPurchases :=
                    (pendingPurchases (sweepExpired s w))(k := None)\<rparr>, expiredFx))
       \<and> confirm_purchase_ok env now k (sweepExpired s w) =
           (if s - createdAt p > PENDING_TTL_MS then (sweepExpired s w, nothingPendingFx)
            else ((sweepExpired s w)\<lparr>pendingPurchases :=
                    (pendingPurchases (sweepExpired s w))(k := None)\<rparr>, expiredFx))"
proof -
  have sw: "pendingPurchases (sweepExpired s w) k =
      (if s - createdAt p > PENDING_TTL_MS then None else Some p)"
    using assms(1) by (simp add: sweepExpired_def)
  show ?thesis
    using assms sw
    by (simp add: confirm_purchase_def confirm_purchase_ok_def cancel_purchase_def)
qed

theorem expired_entry_is_removed_witness:
  "pendingPurchases (sampleWorld ''NU'' PREVIEW) (1, 7) = Some (samplePending ''NU'' PREVIEW)
   \<and> 200000 - createdAt (samplePending ''NU'' PREVIEW) > PENDING_TTL_MS
   \<and> snd (confirm_purchase sheetsUp 200000 (ymd 2026 10 2) (ymd 2026 10 2) (1, 7)
            (sampleWorld ''NU'' PREVIEW)) = expiredFx
   \<and> snd (confirm_purchase_ok sheetsUp 200000 (1, 7) (sampleWorld ''NU'' PREVIEW)) = expiredFx
   \<and> pendingPurchases (fst (cancel_purchase (1, 7) (sampleWorld ''NU'' PREVIEW))) (1, 7) = None"
proof -
  have h1: "pendingPurchases (sampleWorld ''NU'' PREVIEW) (1, 7) = Some (samplePending ''NU'' PREVIEW)"
    by (simp add: sampleWorld_def)
  have h2: "200000 - createdAt (samplePending ''NU'' PREVIEW) > PENDING_TTL_MS"
    by (simp add: samplePending_def PENDING_TTL_MS_def)
  show ?thesis
    using expired_entry_is_removed[OF h1 h2, of sheetsUp "ymd 2026 10 2" "ymd 2026 10 2" 0] h1 h2
    by simp
qed

text \<open>
  The claim as first stated also gives the expired outcome to cancel. An entry created at
  1000 is past the TTL at 200000; cancelling it is reported as a cancellation.
\<close>

theorem cancel_of_expired_entry_reports_cancellation:
  "pendingPurchases (sampleWorld ''NU'' PREVIEW) (1, 7) = Some (samplePending ''NU'' PREVIEW)
   \<and> 200000 - createdAt (samplePending ''NU'' PREVIEW) > PENDING_TTL_MS
   \<and> snd (cancel_purchase (1, 7) (sampleWorld ''NU'' PREVIEW)) = cancelledFx
   \<and> snd (cancel_purchase (1, 7) (sampleWorld ''NU'' PREVIEW)) \<noteq> expiredFx"
  by (simp add: sampleWorld_def samplePending_def PENDING_TTL_MS_def cancel_purchase_def)

section \<open>C9: actions on a key with no entry\<close>

text \<open>
  Claim C9, as amended. With no pending entry for the key, confirm and confirm-anyway
  answer "nothing pending" and change nothing. Cancel changes nothing either (no entry
  is created or removed and nothing is saved), but it reports the cancellation.
\<close>

theorem action_without_entry:
  assumes "pendingPurchases w k = None"
  shows "confirm_purchase env now a b k w = (w, nothingPendingFx)
       \<and> confirm_purchase_ok env now k w = (w, nothingPendingFx)
       \<and> cancel_purchase k w = (w, cancelledFx)"
  using assms remove_absent[OF assms]
  by (simp add: confirm_purchase_def confirm_purchase_ok_def cancel_purchase_def)

theorem action_without_entry_witness:
  "pendingPurchases (sampleWorld ''NU'' PREVIEW) (2, 2) = None
   \<and> confirm_purchase sheetsUp 2000 (ymd 2026 10 2) (ymd 2026 10 2) (2, 2) (sampleWorld ''NU'' PREVIEW)
       = (sampleWorld ''NU'' PREVIEW, nothingPendingFx)
   \<and> confirm_purchase_ok sheetsUp 2000 (2, 2) (sampleWorld ''NU'' PREVIEW)
       = (sampleWorld ''NU'' PREVIEW, nothingPendingFx)
   \<and> cancel_purchase (2, 2) (sampleWorld ''NU'' PREVIEW) = (sampleWorld ''NU'' PREVIEW, cancelledFx)"
proof -
  have h: "pendingPurchases (sampleWorld ''NU'' PREVIEW) (2, 2) = None"
    by (simp add: sampleWorld_def)
  show ?thesis
    using action_without_entry[OF h, of sheetsUp 2000 "ymd 2026 10 2" "ymd 2026 10 2"] h by simp
qed

text \<open>
  The claim as first stated also gives "nothing pending" to cancel. Nothing is pending
  for the key (2, 2) of the sample world; cancelling there is reported as a cancellation.
\<close>

theorem cancel_without_entry_reports_cancellation:
  "pendingPurchases (sampleWorld ''NU'' PREVIEW) (2, 2) = None
   \<and> snd (cancel_purchase (2, 2) (sampleWorld ''NU'' PREVIEW)) = cancelledFx
   \<and> snd (cancel_purchase (2, 2) (sampleWorld ''NU'' PREVIEW)) \<noteq> nothingPendingFx"
  by (simp add: sampleWorld_def cancel_purchase_def)

section \<open>C3: when the advisory fires\<close>

text \<open>
  Claim C3, as amended. \<open>shouldWarn\<close> is true if and only if the ranking is not empty, its
  first card gives at least the chosen card's \<open>daysToPay\<close> plus the threshold of 5 days
  (a difference of exactly 5 counts), and the entry has not been warned already.
\<close>

theorem shouldWarn_iff:
  "IMPROVEMENT_THRESHOLD_DAYS = 5
   \<and> (shouldWarn ranking chosen pend \<longleftrightarrow>
        ranking \<noteq> []
        \<and> daysToPay chosen + 5 \<le> daysToPay (snd (hd ranking))
        \<and> stage pend \<noteq> WARNED)"
  by (cases ranking) (simp_all add: shouldWarn_def IMPROVEMENT_THRESHOLD_DAYS_def)

theorem shouldWarn_iff_witness:
  "shouldWarn [(''BBVA'', sampleWindow 15)] (sampleWindow 10) (samplePending ''NU'' PREVIEW)
   \<and> shouldWarn [(''BBVA'', sampleWindow 16)] (sampleWindow 10) (samplePending ''NU'' PREVIEW)
   \<and> \<not> shouldWarn [(''BBVA'', sampleWindow 14)] (sampleWindow 10) (samplePending ''NU'' PREVIEW)
   \<and> \<not> shouldWarn [] (sampleWindow 10) (samplePending ''NU'' PREVIEW)"
  using shouldWarn_iff[of "[(''BBVA'', sampleWindow 15)]" "sampleWindow 10" "samplePending ''NU'' PREVIEW"]
    shouldWarn_iff[of "[(''BBVA'', sampleWindow 16)]" "sampleWindow 10" "samplePending ''NU'' PREVIEW"]
    shouldWarn_iff[of "[(''BBVA'', sampleWindow 14)]" "sampleWindow 10" "samplePending ''NU'' PREVIEW"]
    shouldWarn_iff[of "[]" "sampleWindow 10" "samplePending ''NU'' PREVIEW"]
  by (simp add: sampleWindow_def samplePending_def)

text \<open>
  The claim as first stated has no condition on the stage. With a best alternative at
  15 days against 10 for the chosen card, \<open>shouldWarn\<close> is false on a warned entry.
\<close>

theorem shouldWarn_false_on_warned_entry:
  "[(''BBVA'', sampleWindow 15)] \<noteq> []
   \<and> daysToPay (sampleWindow 10) + IMPROVEMENT_THRESHOLD_DAYS
        \<le> daysToPay (snd (hd [(''BBVA'', sampleWindow 15)]))
   \<and> \<not> shouldWarn [(''BBVA'', sampleWindow 15)] (sampleWindow 10) (samplePending ''NU'' WARNED)"
  by (simp add: shouldWarn_def sampleWindow_def samplePending_def IMPROVEMENT_THRESHOLD_DAYS_def)

section \<open>C5: a purchase is warned at most once\<close>

text \<open>
  Claim C5. When confirm shows the card recommendation, the entry was in stage PREVIEW
  and is left in stage WARNED. On an entry in stage WARNED neither confirm nor
  confirm-anyway shows a recommendation, at any reading of the clock; when the entry
  has not expired and the spreadsheet accepts the row, both commit: the row is appended,
  the entry is removed and "saved" is reported, whatever the dates (the ranking has no
  influence).
\<close>

theorem warned_at_most_once:
  "(isWarning (snd (confirm_purchase env now a b k w)) \<longrightarrow>
      (\<exists>q. pendingPurchases w k = Some q \<and> stage q = PREVIEW
          \<and> pendingPurchases (fst (confirm_purchase env now a b k w)) k = Some (q\<lparr>stage := WARNED\<rparr>)))
   \<and> (pendingPurchases w k = Some p \<and> stage p = WARNED \<longrightarrow>
        \<not> isWarning (snd (confirm_purchase env now a b k w))
        \<and> \<not> isWarning (snd (confirm_purchase_ok env now k w))
        \<and> (now - createdAt p \<le> PENDING_TTL_MS \<and> sheetsReady env \<and> appendSucceeds env \<longrightarrow>
             confirm_purchase env now a b k w =
               (w\<lparr>sheetRows := sheetRows w @ [rowOf (data p)],
                  pendingPurchases := (pendingPurchases w)(k := None)\<rparr>, savedFx)
             \<and> confirm_purchase_ok env now k w =
               (w\<lparr>sheetRows := sheetRows w @ [rowOf (data p)],
                  pendingPurchases := (pendingPurchases w)(k := None)\<rparr>, savedFx)))"
proof (intro conjI impI)
  assume warn: "isWarning (snd (confirm_purchase env now a b k w))"
  show "\<exists>q. pendingPurchases w k = Some q \<and> stage q = PREVIEW
          \<and> pendingPurchases (fst (confirm_purchase env now a b k w)) k = Some (q\<lparr>stage := WARNED\<rparr>)"
  proof (cases "pendingPurchases w k")
    case None
    then show ?thesis using warn by (simp add: confirm_purchase_absent)
  next
    case (Some q)
    show ?thesis
    proof (cases "now - createdAt q > PENDING_TTL_MS")
      case True
      then show ?thesis using warn Some by (simp add: confirm_purchase_expired)
    next
      case False
      then have live: "now - createdAt q \<le> PENDING_TTL_MS" by simp
      from confirm_purchase_cases[OF Some live, of env a b] warn saveAndDelete_not_warning[of env "data q" k w]
      have "stage q \<noteq> WARNED"
        and "fst (confirm_purchase env now a b k w) =
              w\<lparr>pendingPurchases := (pendingPurchases w)(k \<mapsto> q\<lparr>stage := WARNED\<rparr>)\<rparr>"
        by auto
      then show ?thesis using Some by (cases "stage q") simp_all
    qed
  qed
next
  assume h: "pendingPurchases w k = Some p \<and> stage p = WARNED"
  show "\<not> isWarning (snd (confirm_purchase env now a b k w))"
  proof (cases "now - createdAt p > PENDING_TTL_MS")
    case True
    then show ?thesis using h by (simp add: confirm_purchase_expired)
  next
    case False
    then show ?thesis using h confirm_purchase_warned[of w k p now env a b]
      by (simp add: saveAndDelete_not_warning)
  qed
next
  assume h: "pendingPurchases w k = Some p \<and> stage p = WARNED"
  show "\<not> isWarning (snd (confirm_purchase_ok env now k w))"
    using h by (simp add: confirm_purchase_ok_def saveAndDelete_not_warning)
next
  assume h: "pendingPurchases w k = Some p \<and> stage p = WARNED"
    and g: "now - createdAt p \<le> PENDING_TTL_MS \<and> sheetsReady env \<and> appendSucceeds env"
  show "confirm_purchase env now a b k w =
               (w\<lparr>sheetRows := sheetRows w @ [rowOf (data p)],
                  pendingPurchases := (pendingPurchases w)(k := None)\<rparr>, savedFx)"
    using h g confirm_purchase_warned[of w k p now env a b] by (simp add: saveAndDelete_up)
next
  assume h: "pendingPurchases w k = Some p \<and> stage p = WARNED"
    and g: "now - createdAt p \<le> PENDING_TTL_MS \<and> sheetsReady env \<and> appendSucceeds env"
  show "confirm_purchase_ok env now k w =
               (w\<lparr>sheetRows := sheetRows w @ [rowOf (data p)],
                  pendingPurchases := (pendingPurchases w)(k := None)\<rparr>, savedFx)"
    using h g confirm_purchase_ok_live[of w k p now env] by (simp add: saveAndDelete_up)
qed


theorem warned_at_most_once_witness:
  "isWarning (snd (confirm_purchase sheetsUp 2000 (ymd 2026 10 2) (ymd 2026 10 2) (1, 7)
                    (sampleWorld ''NU'' PREVIEW)))
   \<and> pendingPurchases
        (fst (confirm_purchase sheetsUp 2000 (ymd 2026 10 2) (ymd 2026 10 2) (1, 7)
               (sampleWorld ''NU'' PREVIEW))) (1, 7) = Some (samplePending ''NU'' WARNED)
   \<and> snd (confirm_purchase sheetsUp 3000 (ymd 2026 10 2) (ymd 2026 10 2) (1, 7)
            (fst (confirm_purchase sheetsUp 2000 (ymd 2026 10 2) (ymd 2026 10 2) (1, 7)
                   (sampleWorld ''NU'' PREVIEW)))) = savedFx
   \<and> snd (confirm_purchase_ok sheetsUp 3000 (1, 7)
            (fst (confirm_purchase sheetsUp 2000 (ymd 2026 10 2) (ymd 2026 10 2) (1, 7)
                   (sampleWorld ''NU'' PREVIEW)))) = savedFx"
proof -
  let ?D = "ymd 2026 10 2"
  let ?r = "confirm_purchase sheetsUp 2000 ?D ?D (1, 7) (sampleWorld ''NU'' PREVIEW)"
  have h0: "pendingPurchases (sampleWorld ''NU'' PREVIEW) (1, 7) = Some (samplePending ''NU'' PREVIEW)"
    by (simp add: sampleWorld_def)
  have w: "isWarning (snd ?r)" by code_simp
  have e: "(samplePending ''NU'' PREVIEW)\<lparr>stage := WARNED\<rparr> = samplePending ''NU'' WARNED"
    by (simp add: samplePending_def)
  have h1: "pendingPurchases (fst ?r) (1, 7) = Some (samplePending ''NU'' WARNED)"
    using warned_at_most_once[of sheetsUp 2000 ?D ?D "(1, 7)" "sampleWorld ''NU'' PREVIEW"] w h0 e
    by auto
  have h2: "stage (samplePending ''NU'' WARNED) = WARNED"
    "3000 - createdAt (samplePending ''NU'' WARNED) \<le> PENDING_TTL_MS"
    "sheetsReady sheetsUp" "appendSucceeds sheetsUp"
    by (simp_all add: samplePending_def PENDING_TTL_MS_def sheetsUp_def)
  show ?thesis
    using warned_at_most_once[of sheetsUp 3000 ?D ?D "(1, 7)" "fst ?r" "samplePending ''NU'' WARNED"]
      w h1 h2 by simp
qed

section \<open>C6: a failed save keeps the pending entry\<close>

text \<open>
  Claim C6. When the spreadsheet client is missing or the append is rejected, a commit
  attempt on a live entry changes nothing: the store and the sheet are as before and the
  error is reported, for confirm-anyway and for every confirm that is not the warning.
  Whenever a confirm handler reports the save error, the world is unchanged. A later
  confirm-anyway, within the TTL and with the spreadsheet accepting the row, commits
  the same purchase.
\<close>

theorem failed_save_keeps_entry:
  assumes "pendingPurchases w k = Some p"
    and "now - createdAt p \<le> PENDING_TTL_MS"
    and "\<not> sheetsReady env \<or> \<not> appendSucceeds env"
  shows "confirm_purchase_ok env now k w = (w, failedFx)
       \<and> (\<not> isWarning (snd (confirm_purchase env now a b k w)) \<longrightarrow>
            confirm_purchase env now a b k w = (w, failedFx))
       \<and> (snd (confirm_purchase env' now' a' b' k w) = failedFx \<longrightarrow>
            fst (confirm_purchase env' now' a' b' k w) = w)
       \<and> (snd (confirm_purchase_ok env' now' k w) = failedFx \<longrightarrow>
            fst (confirm_purchase_ok env' now' k w) = w)
       \<and> (now' - createdAt p \<le> PENDING_TTL_MS \<and> sheetsReady env' \<and> appendSucceeds env' \<longrightarrow>
            confirm_purchase_ok env' now' k (fst (confirm_purchase_ok env now k w)) =
              (w\<lparr>sheetRows := sheetRows w @ [rowOf (data p)],
                 pendingPurchases := (pendingPurchases w)(k := None)\<rparr>, savedFx))"
proof (intro conjI impI)
  show ok: "confirm_purchase_ok env now k w = (w, failedFx)"
    using confirm_purchase_ok_live[OF assms(1,2)] saveAndDelete_down[OF assms(3)] by simp
  show "confirm_purchase env now a b k w = (w, failedFx)"
    if "\<not> isWarning (snd (confirm_purchase env now a b k w))"
    using confirm_purchase_cases[OF assms(1,2), of env a b] that saveAndDelete_down[OF assms(3)]
    by auto
  show "fst (confirm_purchase env' now' a' b' k w) = w"
    if f: "snd (confirm_purchase env' now' a' b' k w) = failedFx"
  proof (cases "now' - createdAt p > PENDING_TTL_MS")
    case True
    then show ?thesis using f assms(1) by (simp add: confirm_purchase_expired)
  next
    case False
    then have live: "now' - createdAt p \<le> PENDING_TTL_MS" by simp
    from confirm_purchase_cases[OF assms(1) live, of env' a' b'] f
    have "confirm_purchase env' now' a' b' k w = saveAndDelete env' (data p) k w"
      by auto
    then show ?thesis using f saveAndDelete_failed[of env' "data p" k w] by simp
  qed
  show "fst (confirm_purchase_ok env' now' k w) = w"
    if f: "snd (confirm_purchase_ok env' now' k w) = failedFx"
    using f assms(1) saveAndDelete_failed[of env' "data p" k w]
    by (simp add: confirm_purchase_ok_def split: if_splits)
  show "confirm_purchase_ok env' now' k (fst (confirm_purchase_ok env now k w)) =
              (w\<lparr>sheetRows := sheetRows w @ [rowOf (data p)],
                 pendingPurchases := (pendingPurchases w)(k := None)\<rparr>, savedFx)"
    if "now' - createdAt p \<le> PENDING_TTL_MS \<and> sheetsReady env' \<and> appendSucceeds env'"
    using that ok confirm_purchase_ok_live[OF assms(1), of now' env'] by (simp add: saveAndDelete_up)
qed

theorem failed_save_keeps_entry_witness:
  "pendingPurchases (sampleWorld ''CAPITAL'' PREVIEW) (1, 7) = Some (samplePending ''CAPITAL'' PREVIEW)
   \<and> 2000 - createdAt (samplePending ''CAPITAL'' PREVIEW) \<le> PENDING_TTL_MS
   \<and> \<not> appendSucceeds sheetsDown
   \<and> confirm_purchase_ok sheetsDown 2000 (1, 7) (sampleWorld ''CAPITAL'' PREVIEW)
        = (sampleWorld ''CAPITAL'' PREVIEW, failedFx)
   \<and> confirm_purchase sheetsDown 2000 (ymd 2026 10 2) (ymd 2026 10 2) (1, 7)
        (sampleWorld ''CAPITAL'' PREVIEW) = (sampleWorld ''CAPITAL'' PREVIEW, failedFx)
   \<and> snd (confirm_purchase_ok sheetsUp 3000 (1, 7)
            (fst (confirm_purchase_ok sheetsDown 2000 (1, 7) (sampleWorld ''CAPITAL'' PREVIEW))))
        = savedFx"
proof -
  let ?D = "ymd 2026 10 2"
  let ?W = "sampleWorld ''CAPITAL'' PREVIEW"
  have h1: "pendingPurchases ?W (1, 7) = Some (samplePending ''CAPITAL'' PREVIEW)"
    by (simp add: sampleWorld_def)
  have h2: "2000 - createdAt (samplePending ''CAPITAL'' PREVIEW) \<le> PENDING_TTL_MS"
    by (simp add: samplePending_def PENDING_TTL_MS_def)
  have h3: "\<not> appendSucceeds sheetsDown" by (simp add: sheetsDown_def)
  then have h3': "\<not> sheetsReady sheetsDown \<or> \<not> appendSucceeds sheetsDown" by simp
  have nw: "\<not> isWarning (snd (confirm_purchase sheetsDown 2000 ?D ?D (1, 7) ?W))" by code_simp
  have h4: "3000 - createdAt (samplePending ''CAPITAL'' PREVIEW) \<le> PENDING_TTL_MS
      \<and> sheetsReady sheetsUp \<and> appendSucceeds sheetsUp"
    by (simp add: samplePending_def PENDING_TTL_MS_def sheetsUp_def)
  note T = failed_save_keeps_entry[OF h1 h2 h3', of ?D ?D sheetsUp 3000 ?D ?D]
  have A: "confirm_purchase_ok sheetsDown 2000 (1, 7) ?W = (?W, failedFx)"
    using T by blast
  have B: "confirm_purchase sheetsDown 2000 ?D ?D (1, 7) ?W = (?W, failedFx)"
    using T nw by blast
  have "\<exists>w'. confirm_purchase_ok sheetsUp 3000 (1, 7)
            (fst (confirm_purchase_ok sheetsDown 2000 (1, 7) ?W)) = (w', savedFx)"
    using T h4 by blast
  then have C: "snd (confirm_purchase_ok sheetsUp 3000 (1, 7)
            (fst (confirm_purchase_ok sheetsDown 2000 (1, 7) ?W))) = savedFx"
    by auto
  show ?thesis using A B C h1 h2 h3 by simp
qed

section \<open>C8: exempt and unconfigured cards are saved directly\<close>

text \<open>
  Claim C8. A confirm on a live entry whose card is in the exempt set (CAPITAL,
  PRESTAMO) or has no cycle in the catalog runs the save at once, in either stage and
  at any reading of the clock: no recommendation is shown, and when the spreadsheet
  accepts the row the purchase is committed (row appended, entry removed, "saved").
\<close>

theorem exempt_or_unconfigured_card_is_saved_directly:
  assumes "pendingPurchases w k = Some p"
    and "now - createdAt p \<le> PENDING_TTL_MS"
    and "bank (data p) \<in> SKIP_CUT_VALIDATION \<or> map_of CARD_CYCLE (bank (data p)) = None"
  shows "confirm_purchase env now a b k w = saveAndDelete env (data p) k w
       \<and> \<not> isWarning (snd (confirm_purchase env now a b k w))
       \<and> (sheetsReady env \<and> appendSucceeds env \<longrightarrow>
            confirm_purchase env now a b k w =
              (w\<lparr>sheetRows := sheetRows w @ [rowOf (data p)],
                 pendingPurchases := (pendingPurchases w)(k := None)\<rparr>, savedFx))"
  using confirm_purchase_exempt[OF assms, of env a b] saveAndDelete_not_warning[of env "data p" k w]
  by (simp add: saveAndDelete_up)

theorem exempt_or_unconfigured_card_is_saved_directly_witness:
  "pendingPurchases (sampleWorld ''PRESTAMO'' PREVIEW) (1, 7) = Some (samplePending ''PRESTAMO'' PREVIEW)
   \<and> bank (data (samplePending ''PRESTAMO'' PREVIEW)) \<in> SKIP_CUT_VALIDATION
   \<and> snd (confirm_purchase sheetsUp 2000 (ymd 2026 10 2) (ymd 2026 10 2) (1, 7)
            (sampleWorld ''PRESTAMO'' PREVIEW)) = savedFx
   \<and> pendingPurchases (sampleWorld ''AMEX'' PREVIEW) (1, 7) = Some (samplePending ''AMEX'' PREVIEW)
   \<and> map_of CARD_CYCLE (bank (data (samplePending ''AMEX'' PREVIEW))) = None
   \<and> snd (confirm_purchase sheetsUp 2000 (ymd 2026 10 2) (ymd 2026 10 2) (1, 7)
            (sampleWorld ''AMEX'' PREVIEW)) = savedFx"
proof -
  let ?D = "ymd 2026 10 2"
  have a1: "pendingPurchases (sampleWorld ''PRESTAMO'' PREVIEW) (1, 7) = Some (samplePending ''PRESTAMO'' PREVIEW)"
    and b1: "pendingPurchases (sampleWorld ''AMEX'' PREVIEW) (1, 7) = Some (samplePending ''AMEX'' PREVIEW)"
    by (simp_all add: sampleWorld_def)
  have a2: "2000 - createdAt (samplePending ''PRESTAMO'' PREVIEW) \<le> PENDING_TTL_MS"
    and b2: "2000 - createdAt (samplePending ''AMEX'' PREVIEW) \<le> PENDING_TTL_MS"
    by (simp_all add: samplePending_def PENDING_TTL_MS_def)
  have a3: "bank (data (samplePending ''PRESTAMO'' PREVIEW)) \<in> SKIP_CUT_VALIDATION"
    by (simp add: samplePending_def samplePurchase_def SKIP_CUT_VALIDATION_def)
  have b3: "map_of CARD_CYCLE (bank (data (samplePending ''AMEX'' PREVIEW))) = None"
    by (simp add: samplePending_def samplePurchase_def CARD_CYCLE_def)
  have up: "sheetsReady sheetsUp \<and> appendSucceeds sheetsUp" by (simp add: sheetsUp_def)
  have "\<exists>w'. confirm_purchase sheetsUp 2000 ?D ?D (1, 7) (sampleWorld ''PRESTAMO'' PREVIEW) = (w', savedFx)"
    using exempt_or_unconfigured_card_is_saved_directly[OF a1 a2 disjI1[OF a3], of sheetsUp ?D ?D] up
    by blast
  then have A: "snd (confirm_purchase sheetsUp 2000 ?D ?D (1, 7) (sampleWorld ''PRESTAMO'' PREVIEW)) = savedFx"
    by auto
  have "\<exists>w'. confirm_purchase sheetsUp 2000 ?D ?D (1, 7) (sampleWorld ''AMEX'' PREVIEW) = (w', savedFx)"
    using exempt_or_unconfigured_card_is_saved_directly[OF b1 b2 disjI2[OF b3], of sheetsUp ?D ?D] up
    by blast
  then have B: "snd (confirm_purchase sheetsUp 2000 ?D ?D (1, 7) (sampleWorld ''AMEX'' PREVIEW)) = savedFx"
    by auto
  show ?thesis using A B a1 b1 a3 b3 by simp
qed

section \<open>C10: confirm-anyway does not look at the stage\<close>

text \<open>
  Claim C10. On a live entry, \<open>confirm_purchase_ok\<close> runs the save whatever the stage of
  the entry: it takes no date, computes no window or ranking and shows no
  recommendation, and when the spreadsheet accepts the row the purchase is committed.
  So an entry still in stage PREVIEW, which \<open>confirm_purchase\<close> would have warned about,
  is committed through it.
\<close>

theorem confirm_purchase_ok_ignores_stage:
  assumes "pendingPurchases w k = Some p" and "now - createdAt p \<le> PENDING_TTL_MS"
  shows "confirm_purchase_ok env now k w = saveAndDelete env (data p) k w
       \<and> \<not> isWarning (snd (confirm_purchase_ok env now k w))
       \<and> confirm_purchase_ok env now k
            (w\<lparr>pendingPurchases := (pendingPurchases w)(k \<mapsto> p\<lparr>stage := s\<rparr>)\<rparr>)
          = saveAndDelete env (data p) k
              (w\<lparr>pendingPurchases := (pendingPurchases w)(k \<mapsto> p\<lparr>stage := s\<rparr>)\<rparr>)
       \<and> (sheetsReady env \<and> appendSucceeds env \<longrightarrow>
            confirm_purchase_ok env now k w =
              (w\<lparr>sheetRows := sheetRows w @ [rowOf (data p)],
                 pendingPurchases := (pendingPurchases w)(k := None)\<rparr>, savedFx))"
  using confirm_purchase_ok_live[OF assms, of env] saveAndDelete_not_warning[of env "data p" k w]
    assms(2)
  by (simp add: saveAndDelete_up) (simp add: confirm_purchase_ok_def)

theorem confirm_purchase_ok_ignores_stage_witness:
  "pendingPurchases (sampleWorld ''NU'' PREVIEW) (1, 7) = Some (samplePending ''NU'' PREVIEW)
   \<and> stage (samplePending ''NU'' PREVIEW) = PREVIEW
   \<and> 2000 - createdAt (samplePending ''NU'' PREVIEW) \<le> PENDING_TTL_MS
   \<and> isWarning (snd (confirm_purchase sheetsUp 2000 (ymd 2026 10 2) (ymd 2026 10 2) (1, 7)
                      (sampleWorld ''NU'' PREVIEW)))
   \<and> snd (confirm_purchase_ok sheetsUp 2000 (1, 7) (sampleWorld ''NU'' PREVIEW)) = savedFx
   \<and> sheetRows (fst (confirm_purchase_ok sheetsUp 2000 (1, 7) (sampleWorld ''NU'' PREVIEW)))
       = [rowOf (samplePurchase ''NU'')]"
proof -
  have h1: "pendingPurchases (sampleWorld ''NU'' PREVIEW) (1, 7) = Some (samplePending ''NU'' PREVIEW)"
    by (simp add: sampleWorld_def)
  have h2: "2000 - createdAt (samplePending ''NU'' PREVIEW) \<le> PENDING_TTL_MS"
    by (simp add: samplePending_def PENDING_TTL_MS_def)
  have w: "isWarning (snd (confirm_purchase sheetsUp 2000 (ymd 2026 10 2) (ymd 2026 10 2) (1, 7)
                      (sampleWorld ''NU'' PREVIEW)))" by code_simp
  have up: "sheetsReady sheetsUp \<and> appendSucceeds sheetsUp" by (simp add: sheetsUp_def)
  have A: "confirm_purchase_ok sheetsUp 2000 (1, 7) (sampleWorld ''NU'' PREVIEW) =
      ((sampleWorld ''NU'' PREVIEW)\<lparr>sheetRows := sheetRows (sampleWorld ''NU'' PREVIEW)
            @ [rowOf (data (samplePending ''NU'' PREVIEW))],
          pendingPurchases := (pendingPurchases (sampleWorld ''NU'' PREVIEW))((1, 7) := None)\<rparr>,
       savedFx)"
    using confirm_purchase_ok_ignores_stage[OF h1 h2, of sheetsUp] up by blast
  have B: "stage (samplePending ''NU'' PREVIEW) = PREVIEW" by (simp add: samplePending_def)
  show ?thesis
    unfolding A using h1 h2 w B by (simp add: samplePending_def sampleWorld_def)
qed

section \<open>Facts about the ranking\<close>

lemma insertBy_insort_key:
  fixes f :: "'a \<Rightarrow> int"
  shows "insertBy (\<lambda>a b. f b - f a) x xs = insort_key (\<lambda>a. - f a) x xs"
  by (induction xs) simp_all

lemma sortBy_sort_key:
  fixes f :: "'a \<Rightarrow> int"
  shows "sortBy (\<lambda>a b. f b - f a) xs = sort_key (\<lambda>a. - f a) xs"
proof -
  have "insertBy (\<lambda>a b. f b - f a) = insort_key (\<lambda>a. - f a)"
    by (intro ext) (rule insertBy_insort_key)
  then show ?thesis by (simp add: sortBy_def sort_key_def)
qed

lemma sortBy_descending:
  fixes f :: "'a \<Rightarrow> int"
  shows "sorted_wrt (\<lambda>a b. f b \<le> f a) (sortBy (\<lambda>a b. f b - f a) xs)"
proof -
  have "sorted (map (\<lambda>a. - f a) (sort_key (\<lambda>a. - f a) xs))" by (rule sorted_sort_key)
  then show ?thesis unfolding sortBy_sort_key by (simp add: sorted_map)
qed

lemma sortBy_stable:
  fixes f :: "'a \<Rightarrow> int"
  shows "filter (\<lambda>a. f a = d) (sortBy (\<lambda>a b. f b - f a) xs) = filter (\<lambda>a. f a = d) xs"
proof -
  have "filter (\<lambda>a. - f a = - d) (sort_key (\<lambda>a. - f a) xs) = filter (\<lambda>a. - f a = - d) xs"
    by (rule sort_key_stable)
  then show ?thesis unfolding sortBy_sort_key by simp
qed

lemma sortBy_mset:
  fixes f :: "'a \<Rightarrow> int"
  shows "mset (sortBy (\<lambda>a b. f b - f a) xs) = mset xs"
  unfolding sortBy_sort_key by simp

lemma setHours0_idem: "setHours0 (setHours0 d) = setHours0 d"
  by (simp add: setHours0_def)

lemma windowOf_normalized: "windowOf c (normalizeToDay today) = windowOf c today"
  by (simp add: windowOf_def normalizeToDay_def setHours0_idem)

lemma getPaymentWindow_normalized: "getPaymentWindow b (normalizeToDay today) = getPaymentWindow b today"
  by (simp add: getPaymentWindow_def windowOf_normalized split: option.splits)

lemma getPaymentWindow_cardKeys:
  "b \<in> set cardKeys \<Longrightarrow> \<exists>w. getPaymentWindow b today = Some w"
proof -
  assume "b \<in> set cardKeys"
  then have "map_of CARD_CYCLE b \<noteq> None"
    unfolding cardKeys_def by (simp add: map_of_eq_None_iff)
  then show ?thesis by (auto simp: getPaymentWindow_def)
qed

text \<open>The list the sort receives: every non-excluded key of the catalog with its window.\<close>

lemma unsorted_ranking:
  assumes "set ks \<subseteq> set cardKeys"
  shows "List.map_filter
           (\<lambda>bank. case getPaymentWindow bank t of None \<Rightarrow> None | Some w \<Rightarrow> Some (bank, w)) ks
         = map (\<lambda>bank. (bank, the (getPaymentWindow bank t))) ks"
  using assms
proof (induction ks)
  case Nil
  show ?case by (simp add: List.map_filter_simps)
next
  case (Cons b ks)
  then obtain w where "getPaymentWindow b t = Some w"
    using getPaymentWindow_cardKeys[of b t] by auto
  with Cons show ?case by (simp add: List.map_filter_simps)
qed

lemma rankCardsByDaysToPay_eq:
  "rankCardsByDaysToPay today ex =
     sortBy (\<lambda>a b. daysToPay (snd b) - daysToPay (snd a))
       (map (\<lambda>bank. (bank, the (getPaymentWindow bank today)))
          (filter (\<lambda>bank. bank \<notin> set ex) cardKeys))"
  unfolding rankCardsByDaysToPay_def Let_def
  by (subst unsorted_ranking) (auto simp: getPaymentWindow_normalized)

section \<open>C4: the ranking is sorted, complete and stable\<close>

text \<open>
  Claim C4. For every reference date and exclusion list, \<open>rankCardsByDaysToPay\<close> returns
  the configured cards that are not excluded, each once and with its own payment
  window, sorted by \<open>daysToPay\<close> in descending order; the cards that have the same
  \<open>daysToPay\<close> appear in the order of the catalog.
\<close>

theorem rankCardsByDaysToPay_sorted_stable:
  "sorted_wrt (\<lambda>a b. daysToPay (snd b) \<le> daysToPay (snd a)) (rankCardsByDaysToPay today ex)
   \<and> mset (map fst (rankCardsByDaysToPay today ex)) = mset (filter (\<lambda>bank. bank \<notin> set ex) cardKeys)
   \<and> (\<forall>x \<in> set (rankCardsByDaysToPay today ex). getPaymentWindow (fst x) today = Some (snd x))
   \<and> (\<forall>d. map fst (filter (\<lambda>x. daysToPay (snd x) = d) (rankCardsByDaysToPay today ex))
          = filter (\<lambda>bank. bank \<notin> set ex
                      \<and> map_option daysToPay (getPaymentWindow bank today) = Some d) cardKeys)"
proof (intro conjI allI ballI)
  let ?f = "\<lambda>x :: ranked. daysToPay (snd x)"
  let ?ks = "filter (\<lambda>bank. bank \<notin> set ex) cardKeys"
  let ?xs = "map (\<lambda>bank. (bank, the (getPaymentWindow bank today))) ?ks"
  have r: "rankCardsByDaysToPay today ex = sortBy (\<lambda>a b. ?f b - ?f a) ?xs"
    by (rule rankCardsByDaysToPay_eq)
  show "sorted_wrt (\<lambda>a b. ?f b \<le> ?f a) (rankCardsByDaysToPay today ex)"
    unfolding r by (rule sortBy_descending)
  have m: "mset (rankCardsByDaysToPay today ex) = mset ?xs"
    unfolding r by (rule sortBy_mset)
  have k: "map fst ?xs = ?ks" by (simp add: comp_def)
  have "mset (map fst (rankCardsByDaysToPay today ex)) = image_mset fst (mset ?xs)"
    unfolding mset_map m ..
  also have "\<dots> = mset (map fst ?xs)" by (rule mset_map[symmetric])
  finally show "mset (map fst (rankCardsByDaysToPay today ex)) = mset ?ks"
    unfolding k .
  show "getPaymentWindow (fst x) today = Some (snd x)"
    if "x \<in> set (rankCardsByDaysToPay today ex)" for x
  proof -
    from that have "x \<in> set ?xs" using mset_eq_setD[OF m] by simp
    then obtain b where b: "b \<in> set cardKeys" and x: "x = (b, the (getPaymentWindow b today))"
      by auto
    from getPaymentWindow_cardKeys[OF b, of today] x show ?thesis by auto
  qed
  show "map fst (filter (\<lambda>x. ?f x = d) (rankCardsByDaysToPay today ex))
          = filter (\<lambda>bank. bank \<notin> set ex
                      \<and> map_option daysToPay (getPaymentWindow bank today) = Some d) cardKeys" for d
  proof -
    have "filter (\<lambda>x. ?f x = d) (rankCardsByDaysToPay today ex) = filter (\<lambda>x. ?f x = d) ?xs"
      unfolding r by (rule sortBy_stable)
    then have "map fst (filter (\<lambda>x. ?f x = d) (rankCardsByDaysToPay today ex))
        = filter (\<lambda>bank. daysToPay (the (getPaymentWindow bank today)) = d) ?ks"
      by (simp add: filter_map comp_def)
    also have "\<dots> = filter (\<lambda>bank. bank \<notin> set ex
                      \<and> map_option daysToPay (getPaymentWindow bank today) = Some d) cardKeys"
    proof -
      have eq: "(b \<notin> set ex \<and> daysToPay (the (getPaymentWindow b today)) = d)
          = (b \<notin> set ex \<and> map_option daysToPay (getPaymentWindow b today) = Some d)"
        if "b \<in> set cardKeys" for b
        using getPaymentWindow_cardKeys[OF that, of today] by auto
      show ?thesis unfolding filter_filter by (rule filter_cong[OF refl]) (rule eq)
    qed
    finally show ?thesis .
  qed
qed


theorem rankCardsByDaysToPay_sorted_stable_witness:
  "map (\<lambda>x. (fst x, daysToPay (snd x))) (rankCardsByDaysToPay (ymd 2026 10 2) [''NU''])
     = [(''BBVA'', 41), (''HSBC'', 33), (''RAPPICARD'', 24), (''BANAMEX'', 24), (''MERCADOPAGO'', 21)]
   \<and> sorted_wrt (\<lambda>a b. daysToPay (snd b) \<le> daysToPay (snd a))
        (rankCardsByDaysToPay (ymd 2026 10 2) [''NU''])
   \<and> getPaymentWindow (fst (hd (rankCardsByDaysToPay (ymd 2026 10 2) [''NU''])))
         (ymd 2026 10 2) = Some (snd (hd (rankCardsByDaysToPay (ymd 2026 10 2) [''NU''])))
   \<and> map fst (filter (\<lambda>x. daysToPay (snd x) = 24) (rankCardsByDaysToPay (ymd 2026 10 2) [''NU'']))
     = [''RAPPICARD'', ''BANAMEX'']"
proof -
  let ?D = "ymd 2026 10 2"
  note T = rankCardsByDaysToPay_sorted_stable[of ?D "[''NU'']"]
  have a: "map (\<lambda>x. (fst x, daysToPay (snd x))) (rankCardsByDaysToPay ?D [''NU''])
     = [(''BBVA'', 41), (''HSBC'', 33), (''RAPPICARD'', 24), (''BANAMEX'', 24), (''MERCADOPAGO'', 21)]"
    by code_simp
  have b: "filter (\<lambda>bank. bank \<notin> set [''NU'']
                      \<and> map_option daysToPay (getPaymentWindow bank ?D) = Some 24) cardKeys
     = [''RAPPICARD'', ''BANAMEX'']"
    by code_simp
  have c: "map fst (filter (\<lambda>x. daysToPay (snd x) = 24) (rankCardsByDaysToPay ?D [''NU'']))
     = [''RAPPICARD'', ''BANAMEX'']"
    using T b by (simp only:)
  have "rankCardsByDaysToPay ?D [''NU''] \<noteq> []" using a by auto
  then have "hd (rankCardsByDaysToPay ?D [''NU'']) \<in> set (rankCardsByDaysToPay ?D [''NU''])"
    by (rule hd_in_set)
  then have d: "getPaymentWindow (fst (hd (rankCardsByDaysToPay ?D [''NU''])))
         ?D = Some (snd (hd (rankCardsByDaysToPay ?D [''NU''])))"
    using T by blast
  show ?thesis using T a c d by blast
qed

section \<open>C7: which cut date applies\<close>

lemma valueOf_same_month:
  "valueOf \<lparr>getFullYear = y, getMonth = m, getDate = d, msOfDay = 0\<rparr>
     \<le> valueOf \<lparr>getFullYear = y, getMonth = m, getDate = c, msOfDay = 0\<rparr> \<longleftrightarrow> d \<le> c"
  by (simp add: valueOf_def dayNumber_def msPerDay_def)

lemma addMonths_one_regular:
  assumes "getMonth t < 12" "1 \<le> getDate t" "getDate t \<le> 28"
  shows "addMonths t 1 =
     (if getMonth t = 11
      then \<lparr>getFullYear = getFullYear t + 1, getMonth = 0, getDate = getDate t, msOfDay = 0\<rparr>
      else \<lparr>getFullYear = getFullYear t, getMonth = getMonth t + 1, getDate = getDate t, msOfDay = 0\<rparr>)"
proof (cases "getMonth t = 11")
  case True
  have "getDate t \<le> daysInMonth (getFullYear t + 1) 0" using assms(3) by (simp add: daysInMonth_def)
  then show ?thesis
    unfolding addMonths_def setMonth_def makeDay_def setHours0_def
    using True assms(2) by (simp add: rollDay_id)
next
  case False
  then have m: "(getMonth t + 1) div 12 = 0" "(getMonth t + 1) mod 12 = getMonth t + 1"
    using assms(1) by simp_all
  have "getDate t \<le> daysInMonth (getFullYear t) (getMonth t + 1)"
    using assms(3) daysInMonth_bounds(1)[of "getFullYear t" "getMonth t + 1"] by linarith
  then show ?thesis
    unfolding addMonths_def setMonth_def makeDay_def setHours0_def m
    using False assms(2) by (simp add: rollDay_id)
qed

text \<open>
  For a reference day from 1 to 28 (a year from 100 on, a cut day from 1 to 28) the cut
  is this month's when the reference day is not after the cut day, and the cut day of
  the next month otherwise.
\<close>

lemma getNextCutDate_regular:
  assumes "validDate t" "msOfDay t = 0" "100 \<le> getFullYear t" "getDate t \<le> 28"
    and "1 \<le> c" "c \<le> 28"
  shows "getNextCutDate t c =
     (if getDate t \<le> c
      then \<lparr>getFullYear = getFullYear t, getMonth = getMonth t, getDate = c, msOfDay = 0\<rparr>
      else if getMonth t = 11
      then \<lparr>getFullYear = getFullYear t + 1, getMonth = 0, getDate = c, msOfDay = 0\<rparr>
      else \<lparr>getFullYear = getFullYear t, getMonth = getMonth t + 1, getDate = c, msOfDay = 0\<rparr>)"
proof -
  have m: "getMonth t < 12" and d: "1 \<le> getDate t" using assms(1) by (simp_all add: validDate_def)
  have y: "fullYearOf (getFullYear t) = getFullYear t" "fullYearOf (getFullYear t + 1) = getFullYear t + 1"
    using assms(3) by (simp_all add: fullYearOf_def)
  have t: "t = \<lparr>getFullYear = getFullYear t, getMonth = getMonth t, getDate = getDate t, msOfDay = 0\<rparr>"
    using assms(2) by simp
  have this_month: "buildDateYMDay t c =
      \<lparr>getFullYear = getFullYear t, getMonth = getMonth t, getDate = c, msOfDay = 0\<rparr>"
    using buildDateYMDay_exact[OF m assms(5,6)] y by simp
  have cmp: "valueOf t \<le> valueOf (buildDateYMDay t c) \<longleftrightarrow> getDate t \<le> c"
    unfolding this_month by (subst t) (rule valueOf_same_month)
  have next_month: "buildDateYMDay (addMonths t 1) c =
      (if getMonth t = 11
       then \<lparr>getFullYear = getFullYear t + 1, getMonth = 0, getDate = c, msOfDay = 0\<rparr>
       else \<lparr>getFullYear = getFullYear t, getMonth = getMonth t + 1, getDate = c, msOfDay = 0\<rparr>)"
  proof -
    have "getMonth (addMonths t 1) < 12"
      using addMonths_valid[of t 1] by (simp add: validDate_def)
    from buildDateYMDay_exact[OF this assms(5,6)] show ?thesis
      unfolding addMonths_one_regular[OF m d assms(4)] using y by simp
  qed
  show ?thesis
    unfolding getNextCutDate_def Let_def unfolding cmp unfolding next_month this_month by simp
qed

text \<open>
  Claim C7 at an input where the code departs from it. On 31 January 2026 the cut day 6
  of the month has passed, so the claim (and the comment of \<open>getNextCutDate\<close>) give the
  cut of the next month, 6 February. \<open>addMonths\<close> moves the reference date itself by one
  month: 31 February does not exist and rolls to 3 March, and the cut returned is
  6 March, with the due date on 26 March.
\<close>

theorem getNextCutDate_after_day_31:
  "valueOf (buildDateYMDay (ymd 2026 0 31) 6) < valueOf (normalizeToDay (ymd 2026 0 31))
   \<and> addMonths (ymd 2026 0 31) 1 = ymd 2026 2 3
   \<and> getNextCutDate (normalizeToDay (ymd 2026 0 31)) 6 = ymd 2026 2 6
   \<and> getNextCutDate (normalizeToDay (ymd 2026 0 31)) 6 \<noteq> ymd 2026 1 6
   \<and> map_option cutDate (getPaymentWindow ''RAPPICARD'' (ymd 2026 0 31)) = Some (ymd 2026 2 6)
   \<and> map_option dueDate (getPaymentWindow ''RAPPICARD'' (ymd 2026 0 31)) = Some (ymd 2026 2 26)
   \<and> map_option daysToPay (getPaymentWindow ''RAPPICARD'' (ymd 2026 0 31)) = Some 54"
  by code_simp

end
